theory Spec2Isabelle
  imports Main "HOL-Library.Word" "HOL-Library.Signed_Division"
begin

unbundle bit_operations_syntax

section \<open>Machine types of the target\<close>

text \<open>
  The sketch is written for the Arduino Uno (AVR): \<^verbatim>\<open>int\<close> has 16 bits,
  \<^verbatim>\<open>unsigned long\<close> has 32 bits, \<^verbatim>\<open>int8_t\<close> is one byte. Unsigned arithmetic
  wraps around; a conversion to a narrower type keeps the low bits.
\<close>

type_synonym u8 = "8 word"
type_synonym i16 = "16 word"
type_synonym u32 = "32 word"

text \<open>A digital pin level, as \<^verbatim>\<open>digitalRead\<close> returns it and \<^verbatim>\<open>digitalWrite\<close> takes it.\<close>

datatype level = LOW | HIGH

text \<open>
  The operators \<^verbatim>\<open>/\<close> and \<^verbatim>\<open>%\<close> on \<^verbatim>\<open>int\<close>: the operands are read as
  two's complement and the quotient truncates towards zero.
\<close>

definition int_div :: "i16 \<Rightarrow> i16 \<Rightarrow> i16" where
  "int_div a b = word_of_int (sint a sdiv sint b)"

definition int_mod :: "i16 \<Rightarrow> i16 \<Rightarrow> i16" where
  "int_mod a b = word_of_int (sint a smod sint b)"

text \<open>An array of four bytes (\<^verbatim>\<open>int8_t x[4]\<close>), element 0 first.\<close>

type_synonym quad = "u8 \<times> u8 \<times> u8 \<times> u8"

section \<open>The program state\<close>

text \<open>The values of the \<^verbatim>\<open>ST_\<close> constants, the only ones the variable \<^verbatim>\<open>state\<close> ever holds.\<close>

datatype drive_state = ST_INIT | ST_IDLE | ST_HOLD | ST_RUN

text \<open>
  The globals (\<^verbatim>\<open>steppingOn\<close>, \<^verbatim>\<open>debugTimeMult\<close>), the function-local statics of
  \<^verbatim>\<open>dispTime\<close> (\<^verbatim>\<open>LastTimeDisp\<close>) and of \<^verbatim>\<open>loop\<close> (\<^verbatim>\<open>lastButtonReading\<close>,
  \<^verbatim>\<open>stopTime\<close>, \<^verbatim>\<open>state\<close>), and what the program has done to its outputs: the level
  last written to the driver's enable pin, the number of step pulses sent, and the
  arguments of every \<^verbatim>\<open>setSegments\<close> call so far, oldest first.
\<close>

record ctrl =
  steppingOn :: bool
  debugTimeMult :: i16
  LastTimeDisp :: quad
  lastButtonReading :: bool
  stopTime :: u32
  state :: drive_state
  enablePin :: level
  stepPulses :: nat
  segWrites :: "quad list"

section \<open>The time source\<close>

text \<open>
  \<^verbatim>\<open>myMillis\<close> multiplies the value of \<^verbatim>\<open>millis()\<close>, given here as \<open>raw\<close>, by
  \<^verbatim>\<open>debugTimeMult\<close>. The \<^verbatim>\<open>int\<close> operand is converted to \<^verbatim>\<open>unsigned long\<close> (sign
  extension) and the product wraps at 32 bits. Nothing is written.
\<close>

definition myMillis :: "ctrl \<Rightarrow> u32 \<Rightarrow> u32" where
  "myMillis s raw = raw * scast (debugTimeMult s)"

section \<open>The display routine\<close>

text \<open>
  The first half of \<^verbatim>\<open>dispTime\<close>: the four digit values stored in \<^verbatim>\<open>TimeDisp\<close> before
  the comparison with \<^verbatim>\<open>LastTimeDisp\<close>.
\<close>

definition timeDigits :: "u32 \<Rightarrow> quad" where
  "timeDigits msecTime =
    (let secTime = (msecTime + 999) div 1000;
         second = (if 6000000 \<le> msecTime then 0 else ucast (secTime mod 60) :: i16);
         minute = (if 6000000 \<le> msecTime then 0 else ucast (secTime div 60) :: i16)
     in (ucast (int_div minute 10), ucast (int_mod minute 10),
         ucast (int_div second 10), ucast (int_mod second 10)))"

text \<open>
  The second half: when the digit values differ from \<^verbatim>\<open>LastTimeDisp\<close> (\<^verbatim>\<open>memcmp\<close> over
  the four bytes), each is replaced by its segment code, the second one with bit 7 (the
  separator dots) set, the result goes to \<^verbatim>\<open>setSegments\<close> and is copied to
  \<^verbatim>\<open>LastTimeDisp\<close>. The digit encoder \<^verbatim>\<open>encodeDigit\<close> belongs to the display library
  and is a parameter here.
\<close>

definition dispTime :: "(u8 \<Rightarrow> u8) \<Rightarrow> ctrl \<Rightarrow> u32 \<Rightarrow> ctrl" where
  "dispTime encodeDigit s msecTime =
    (case timeDigits msecTime of (d0, d1, d2, d3) \<Rightarrow>
      if (d0, d1, d2, d3) \<noteq> LastTimeDisp s
      then (let segs = (encodeDigit d0, encodeDigit d1 OR 0x80, encodeDigit d2, encodeDigit d3)
            in s\<lparr>segWrites := segWrites s @ [segs], LastTimeDisp := segs\<rparr>)
      else s)"

text \<open>
  A concrete digit encoder for the examples: the usual seven-segment codes of the
  decimal digits, bit 0 for segment A up to bit 6 for segment G (the layout drawn in
  \<^verbatim>\<open>loop\<close>). Every general statement below holds for any encoder.
\<close>

definition sevenSeg :: "u8 \<Rightarrow> u8" where
  "sevenSeg d =
    (if d = 0 then 0x3F else if d = 1 then 0x06 else if d = 2 then 0x5B
     else if d = 3 then 0x4F else if d = 4 then 0x66 else if d = 5 then 0x6D
     else if d = 6 then 0x7D else if d = 7 then 0x07 else if d = 8 then 0x7F
     else if d = 9 then 0x6F else 0)"

section \<open>Initialisation and the timer interrupt\<close>

text \<open>
  The static initialisers followed by \<^verbatim>\<open>setup\<close> (the name is taken in Isabelle,
  hence the suffix). The argument is the level that
  \<^verbatim>\<open>digitalRead(MODE_BUTTON_PIN)\<close> returns there.
\<close>

definition setup_board :: "level \<Rightarrow> ctrl" where
  "setup_board bootButton =
    \<lparr> steppingOn = False,
      debugTimeMult = (if bootButton = LOW then 60 else 1),
      LastTimeDisp = (0, 0, 0, 0),
      lastButtonReading = False,
      stopTime = 0,
      state = ST_INIT,
      enablePin = HIGH,
      stepPulses = 0,
      segWrites = [] \<rparr>"

text \<open>One firing of the timer interrupt: a step pulse when \<^verbatim>\<open>steppingOn\<close> is set.\<close>

definition takeStepISR :: "ctrl \<Rightarrow> ctrl" where
  "takeStepISR s = (if steppingOn s then s\<lparr>stepPulses := stepPulses s + 1\<rparr> else s)"

section \<open>The main loop\<close>

definition MAX_DURATION_MSEC :: u32 where
  "MAX_DURATION_MSEC = 3000000"

definition HoldDisp :: quad where
  "HoldDisp = (0x76, 0x5C, 0x38, 0x5E)"

definition IdleDisp :: quad where
  "IdleDisp = (0x06, 0x5E, 0x38, 0x79)"

text \<open>
  What one pass through \<^verbatim>\<open>loop\<close> reads from outside: the button pin, and the value of
  \<^verbatim>\<open>millis()\<close> at each of the three places where \<^verbatim>\<open>myMillis\<close> is called (the exit
  test of the Run state, the arming of \<^verbatim>\<open>stopTime\<close>, the countdown display).
\<close>

record cycle_in =
  button :: level
  millis_check :: u32
  millis_start :: u32
  millis_disp :: u32

text \<open>
  \<^verbatim>\<open>buttonWasPressed\<close>: the reading is 0 and the previous reading was 1.
\<close>

definition buttonWasPressed :: "ctrl \<Rightarrow> cycle_in \<Rightarrow> bool" where
  "buttonWasPressed s i = (button i = LOW \<and> lastButtonReading s)"

text \<open>The first \<^verbatim>\<open>switch\<close>: the state to move to.\<close>

definition newState :: "ctrl \<Rightarrow> cycle_in \<Rightarrow> drive_state" where
  "newState s i =
    (case state s of
       ST_INIT \<Rightarrow> ST_IDLE
     | ST_IDLE \<Rightarrow> (if buttonWasPressed s i then ST_HOLD else ST_IDLE)
     | ST_HOLD \<Rightarrow> (if buttonWasPressed s i then ST_RUN else ST_HOLD)
     | ST_RUN \<Rightarrow>
         (if buttonWasPressed s i \<or> stopTime s \<le> myMillis s (millis_check i)
          then ST_IDLE else ST_RUN))"

text \<open>The second \<^verbatim>\<open>switch\<close>: what is done on entering a state.\<close>

definition enterState :: "(u8 \<Rightarrow> u8) \<Rightarrow> ctrl \<Rightarrow> cycle_in \<Rightarrow> drive_state \<Rightarrow> ctrl" where
  "enterState encodeDigit s i n =
    (case n of
       ST_IDLE \<Rightarrow> s\<lparr>segWrites := segWrites s @ [IdleDisp], enablePin := HIGH, steppingOn := False\<rparr>
     | ST_HOLD \<Rightarrow> s\<lparr>segWrites := segWrites s @ [HoldDisp], steppingOn := False, enablePin := LOW\<rparr>
     | ST_RUN \<Rightarrow>
         (let s1 = dispTime encodeDigit s MAX_DURATION_MSEC
          in s1\<lparr>steppingOn := True, enablePin := LOW,
                stopTime := myMillis s1 (millis_start i) + MAX_DURATION_MSEC\<rparr>)
     | ST_INIT \<Rightarrow> s)"

text \<open>One pass through \<^verbatim>\<open>loop\<close>.\<close>

definition loop :: "(u8 \<Rightarrow> u8) \<Rightarrow> ctrl \<Rightarrow> cycle_in \<Rightarrow> ctrl" where
  "loop encodeDigit s i =
    (let n = newState s i;
         s1 = s\<lparr>lastButtonReading := (button i \<noteq> LOW)\<rparr>;
         s2 = (if state s1 \<noteq> n then (enterState encodeDigit s1 i n)\<lparr>state := n\<rparr> else s1)
     in if state s2 = ST_RUN
        then dispTime encodeDigit s2 (stopTime s2 - myMillis s2 (millis_disp i))
        else s2)"

section \<open>Executions\<close>

text \<open>
  The program after \<^verbatim>\<open>setup\<close> is a sequence of passes through \<^verbatim>\<open>loop\<close> and of timer
  interrupts. States are observed between passes; the interrupt handler reads
  \<^verbatim>\<open>steppingOn\<close> and writes the step pin only.
\<close>

datatype event = Pass cycle_in | Timer

primrec step :: "(u8 \<Rightarrow> u8) \<Rightarrow> ctrl \<Rightarrow> event \<Rightarrow> ctrl" where
  "step encodeDigit s (Pass i) = loop encodeDigit s i"
| "step encodeDigit s Timer = takeStepISR s"

inductive reachable :: "(u8 \<Rightarrow> u8) \<Rightarrow> ctrl \<Rightarrow> bool" for encodeDigit where
  reach_setup: "reachable encodeDigit (setup_board b)"
| reach_step: "reachable encodeDigit s \<Longrightarrow> reachable encodeDigit (step encodeDigit s e)"

section \<open>Notions used in the statements\<close>

text \<open>The duration rounded up to whole seconds, as a natural number.\<close>

definition ceilSeconds :: "u32 \<Rightarrow> nat" where
  "ceilSeconds d = (unat d + 999) div 1000"

text \<open>
  The digit values of \<open>m\<close> minutes and \<open>s\<close> seconds, tens before units, and the
  segment codes of the same with the separator bit on the second position.
\<close>

definition mmssDigits :: "nat \<Rightarrow> nat \<Rightarrow> quad" where
  "mmssDigits m s = (of_nat (m div 10), of_nat (m mod 10), of_nat (s div 10), of_nat (s mod 10))"

definition mmssSegments :: "(u8 \<Rightarrow> u8) \<Rightarrow> nat \<Rightarrow> nat \<Rightarrow> quad" where
  "mmssSegments encodeDigit m s =
    (encodeDigit (of_nat (m div 10)), encodeDigit (of_nat (m mod 10)) OR 0x80,
     encodeDigit (of_nat (s div 10)), encodeDigit (of_nat (s mod 10)))"

text \<open>
  A digit pattern shows \<open>m\<close> minutes and \<open>s\<close> seconds with two decimal digits each:
  this needs \<open>m\<close> below 100.
\<close>

definition showsMMSS :: "quad \<Rightarrow> nat \<Rightarrow> nat \<Rightarrow> bool" where
  "showsMMSS p m s = (m < 100 \<and> s < 60 \<and> p = mmssDigits m s)"

text \<open>The cycle of the three working states; \<open>ST_INIT\<close> is not on it.\<close>

fun nextInCycle :: "drive_state \<Rightarrow> drive_state option" where
  "nextInCycle ST_IDLE = Some ST_HOLD"
| "nextInCycle ST_HOLD = Some ST_RUN"
| "nextInCycle ST_RUN = Some ST_IDLE"
| "nextInCycle ST_INIT = None"

text \<open>The driver's enable input is active low.\<close>

definition motorEnergized :: "ctrl \<Rightarrow> bool" where
  "motorEnergized s = (enablePin s = LOW)"

text \<open>
  A run of passes without a press edge: \<open>noPress prev is\<close> says that no pass of \<open>is\<close>
  reads the button low right after a high reading, \<open>prev\<close> being the reading before the
  first pass.
\<close>

fun noPress :: "bool \<Rightarrow> cycle_in list \<Rightarrow> bool" where
  "noPress prev [] = True"
| "noPress prev (i # is) = (\<not> (button i = LOW \<and> prev) \<and> noPress (button i \<noteq> LOW) is)"

text \<open>
  A clock read once per pass: \<open>paced P t cs\<close> says that the readings \<open>cs\<close>, taken after
  a reading \<open>t\<close>, never go back and advance by at most \<open>P\<close> from one to the next.
\<close>

fun paced :: "nat \<Rightarrow> nat \<Rightarrow> nat list \<Rightarrow> bool" where
  "paced P t [] = True"
| "paced P t (c # cs) = (t \<le> c \<and> c \<le> t + P \<and> paced P c cs)"

text \<open>A sequence of passes through \<^verbatim>\<open>loop\<close>, one after the other.\<close>

definition passes :: "(u8 \<Rightarrow> u8) \<Rightarrow> ctrl \<Rightarrow> cycle_in list \<Rightarrow> ctrl" where
  "passes encodeDigit s is = foldl (loop encodeDigit) s is"

text \<open>
  Pass number \<open>k\<close> of \<open>is\<close> (counting from 0), started from \<open>s\<close>, is the one that
  takes the machine from Run to Idle.
\<close>

definition leavesRunAt :: "(u8 \<Rightarrow> u8) \<Rightarrow> ctrl \<Rightarrow> cycle_in list \<Rightarrow> nat \<Rightarrow> bool" where
  "leavesRunAt encodeDigit s is k =
    (k < length is \<and> state (passes encodeDigit s (take k is)) = ST_RUN \<and>
     state (passes encodeDigit s (take (Suc k) is)) = ST_IDLE)"

text \<open>
  Inputs for the examples: a pass that reads the button high (released) or low
  (pressed), every \<^verbatim>\<open>millis()\<close> call of the pass returning \<open>t\<close>.
\<close>

definition released :: "u32 \<Rightarrow> cycle_in" where
  "released t = \<lparr>button = HIGH, millis_check = t, millis_start = t, millis_disp = t\<rparr>"

definition pressed :: "u32 \<Rightarrow> cycle_in" where
  "pressed t = \<lparr>button = LOW, millis_check = t, millis_start = t, millis_disp = t\<rparr>"

section \<open>Arithmetic of the display routine\<close>

lemma sint_of_nat16:
  assumes "n < 32768" shows "sint (of_nat n :: i16) = int n"
proof -
  have "uint (of_nat n :: i16) = int n" using assms by (simp add: uint_nat unat_of_nat)
  then have "sint (of_nat n :: i16) = signed_take_bit 15 (int n)"
    by (simp add: sint_uint)
  also have "\<dots> = int n" using assms by (simp add: signed_take_bit_int_eq_self)
  finally show ?thesis .
qed

lemma sdiv_nonneg: "(int a) sdiv (int b) = int (a div b)"
  by (simp add: signed_divide_int_def zdiv_int sgn_if)

lemma smod_nonneg: "(int a) smod (int b) = int (a mod b)"
  by (simp add: signed_modulo_int_def zmod_int sgn_if)

lemma int_div10: "n < 32768 \<Longrightarrow> int_div (of_nat n) 10 = of_nat (n div 10)"
  using sdiv_nonneg[of n 10] by (simp add: int_div_def sint_of_nat16)

lemma int_mod10: "n < 32768 \<Longrightarrow> int_mod (of_nat n) 10 = of_nat (n mod 10)"
  using smod_nonneg[of n 10] by (simp add: int_mod_def sint_of_nat16)

lemma ucast_of_nat16: "n < 65536 \<Longrightarrow> ucast (of_nat n :: u32) = (of_nat n :: i16)"
  by (simp add: unsigned_of_nat take_bit_nat_eq_self)

lemma ucast_of_nat8: "n < 256 \<Longrightarrow> ucast (of_nat n :: i16) = (of_nat n :: u8)"
  by (simp add: unsigned_of_nat take_bit_nat_eq_self)

lemma secTime_nat:
  "unat d < 6000000 \<Longrightarrow> (d + 999) div 1000 = (of_nat ((unat d + 999) div 1000) :: u32)"
  by (rule word_unat_eq_iff[THEN iffD2]) (simp add: unat_div unat_word_ariths unat_of_nat)

lemma div60: "unat (x::u32) < 65536 \<Longrightarrow> x div 60 = of_nat (unat x div 60)"
  by (rule word_unat_eq_iff[THEN iffD2]) (simp add: unat_div unat_of_nat)

lemma mod60: "x mod 60 = (of_nat (unat x mod 60) :: u32)"
  by (rule word_unat_eq_iff[THEN iffD2]) (simp add: unat_mod unat_of_nat)

lemma digit16: "n < 2560 \<Longrightarrow>
  (ucast (int_div (of_nat n) 10) :: u8) = of_nat (n div 10) \<and> (ucast (int_mod (of_nat n) 10) :: u8) = of_nat (n mod 10)"
proof -
  assume n: "n < 2560"
  have a: "n div 10 < 256" using n by simp
  have b: "n mod 10 < 256" by (rule less_trans[of _ 10]) simp_all
  show ?thesis using n a b by (simp add: int_div10 int_mod10 ucast_of_nat8)
qed

lemma timeDigits_below:
  assumes "d < 6000000"
  shows "timeDigits d = mmssDigits (ceilSeconds d div 60) (ceilSeconds d mod 60)"
proof -
  let ?c = "(unat d + 999) div 1000"
  from assms have u: "unat d < 6000000" by (simp add: word_less_nat_alt)
  then have c: "?c \<le> 6000" by simp
  have sec: "(d + 999) div 1000 = (of_nat ?c :: u32)" using u by (rule secTime_nat)
  have uc: "unat (of_nat ?c :: u32) = ?c" using c by (simp add: unat_of_nat)
  have m: "(ucast ((of_nat ?c :: u32) div 60) :: i16) = of_nat (?c div 60)"
    using c uc by (simp add: div60 ucast_of_nat16)
  have "?c mod 60 < 65536" by (rule less_trans[of _ 60]) simp_all
  then have s: "(ucast ((of_nat ?c :: u32) mod 60) :: i16) = of_nat (?c mod 60)"
    using uc by (simp add: mod60 ucast_of_nat16)
  have mb: "?c div 60 < 2560" using c by simp
  have sb: "?c mod 60 < 2560" by (rule less_trans[of _ 60]) simp_all
  have nle: "\<not> 6000000 \<le> d" using assms by simp
  show ?thesis
    unfolding timeDigits_def Let_def mmssDigits_def ceilSeconds_def
    using nle by (simp only: if_False sec m s digit16[OF mb] digit16[OF sb])
qed

lemma timeDigits_expired: "6000000 \<le> d \<Longrightarrow> timeDigits d = (0, 0, 0, 0)"
  by (simp add: timeDigits_def int_div_def int_mod_def)

lemma or80_ge: "128 \<le> unat ((x::u8) OR 0x80)"
proof -
  have "(0x80::u8) \<le> x OR 0x80" by (rule le_word_or1)
  then show ?thesis by (simp add: word_le_nat_alt)
qed

lemma small_ne_or80: "k < 128 \<Longrightarrow> (of_nat k :: u8) \<noteq> x OR 0x80"
proof
  assume k: "k < 128" and e: "(of_nat k :: u8) = x OR 0x80"
  have "unat (of_nat k :: u8) = k" using k by (simp add: unat_of_nat)
  with e or80_ge[of x] k show False by simp
qed

lemma timeDigits_second_small: "\<exists>a k c e. timeDigits d = (a, of_nat k, c, e) \<and> k < 10"
proof (cases "d < 6000000")
  case True
  have "ceilSeconds d div 60 mod 10 < 10" by simp
  then show ?thesis unfolding timeDigits_below[OF True] mmssDigits_def by blast
next
  case False
  then have "6000000 \<le> d" by (simp add: not_less)
  then have "timeDigits d = (0, of_nat 0, 0, 0) \<and> (0::nat) < 10"
    by (simp add: timeDigits_expired)
  then show ?thesis by blast
qed

lemma dispTime_unchanged: "LastTimeDisp s = timeDigits d \<Longrightarrow> dispTime enc s d = s"
  by (simp add: dispTime_def split: prod.splits)

lemma dispTime_writes:
  "LastTimeDisp s \<noteq> timeDigits d \<Longrightarrow> timeDigits d = (a, b, c, e) \<Longrightarrow>
   dispTime enc s d = s\<lparr>segWrites := segWrites s @ [(enc a, enc b OR 0x80, enc c, enc e)],
                          LastTimeDisp := (enc a, enc b OR 0x80, enc c, enc e)\<rparr>"
  by (auto simp add: dispTime_def Let_def)

lemma dispTime_after_write:
  assumes "LastTimeDisp s = (p, q OR 0x80, r, t)"
  shows "LastTimeDisp s \<noteq> timeDigits d"
proof -
  obtain a k c e where td: "timeDigits d = (a, of_nat k, c, e)" and k: "k < 10"
    using timeDigits_second_small by blast
  have "(of_nat k :: u8) \<noteq> q OR 0x80" using k by (intro small_ne_or80) simp
  with td assms show ?thesis by auto
qed

lemma of_nat8_eq_0: "n < 256 \<Longrightarrow> (of_nat n :: u8) = 0 \<longleftrightarrow> n = 0"
proof
  assume n: "n < 256" and z: "(of_nat n :: u8) = 0"
  have "unat (of_nat n :: u8) = n" using n by (simp add: unat_of_nat)
  with z show "n = 0" by simp
qed simp

lemma div_mod_zero: "(n::nat) div k = 0 \<and> n mod k = 0 \<longleftrightarrow> n = 0"
proof
  assume "n div k = 0 \<and> n mod k = 0"
  with div_mult_mod_eq[of n k] show "n = 0" by simp
qed simp

lemma digits_zero: "(c::nat) div 60 div 10 = 0 \<and> c div 60 mod 10 = 0 \<and> c mod 60 div 10 = 0 \<and> c mod 60 mod 10 = 0 \<longleftrightarrow> c = 0"
proof -
  have "(c div 60 div 10 = 0 \<and> c div 60 mod 10 = 0) \<and> (c mod 60 div 10 = 0 \<and> c mod 60 mod 10 = 0) \<longleftrightarrow> c = 0"
    by (simp only: div_mod_zero)
  then show ?thesis by (simp only: conj_assoc)
qed

lemma timeDigits_zero_iff: "timeDigits d = (0, 0, 0, 0) \<longleftrightarrow> d = 0 \<or> 6000000 \<le> d"
proof (cases "d < 6000000")
  case False
  then have "6000000 \<le> d" by (simp add: not_less)
  then show ?thesis by (simp add: timeDigits_expired)
next
  case True
  let ?c = "ceilSeconds d"
  from True have u: "unat d < 6000000" by (simp add: word_less_nat_alt)
  then have c: "?c \<le> 6000" by (simp add: ceilSeconds_def)
  have b1: "?c div 60 div 10 < 256" using c by simp
  have b2: "?c div 60 mod 10 < 256" by (rule less_trans[of _ 10]) simp_all
  have b3: "?c mod 60 div 10 < 256" by (rule less_le_trans[of _ 60]) simp_all
  have b4: "?c mod 60 mod 10 < 256" by (rule less_trans[of _ 10]) simp_all
  have "timeDigits d = (0, 0, 0, 0) \<longleftrightarrow>
        ?c div 60 div 10 = 0 \<and> ?c div 60 mod 10 = 0 \<and> ?c mod 60 div 10 = 0 \<and> ?c mod 60 mod 10 = 0"
    unfolding timeDigits_below[OF True] mmssDigits_def
    by (simp only: prod.inject of_nat8_eq_0[OF b1] of_nat8_eq_0[OF b2] of_nat8_eq_0[OF b3] of_nat8_eq_0[OF b4])
  also have "\<dots> \<longleftrightarrow> ?c = 0" by (rule digits_zero)
  also have "\<dots> \<longleftrightarrow> unat d = 0" unfolding ceilSeconds_def by arith
  also have "\<dots> \<longleftrightarrow> d = 0" by (simp add: unat_eq_0)
  finally have "timeDigits d = (0, 0, 0, 0) \<longleftrightarrow> d = 0" .
  moreover have "\<not> 6000000 \<le> d" using True by simp
  ultimately show ?thesis by simp
qed

section \<open>The display routine: change suppression and rendering\<close>

text \<open>
  Claim C1 (two consecutive calls with the same digit pattern issue exactly one write).
  The code does otherwise. \<^verbatim>\<open>LastTimeDisp\<close> receives the segment codes, whose second byte
  has bit 7 set, and is then compared with digit values, whose second byte is below 10.
  So when two consecutive calls compute the same digit pattern, either neither writes
  (the buffer already equals the digit values, which only the initial buffer of zeros
  can) or both write: the number of writes is 0 or 2, never 1.
\<close>

theorem dispTime_repeats_write:
  "timeDigits d' = timeDigits d \<Longrightarrow>
   length (segWrites (dispTime enc (dispTime enc s d) d')) =
     length (segWrites s) + (if LastTimeDisp s = timeDigits d then 0 else 2)"
proof (cases "LastTimeDisp s = timeDigits d")
  case True
  assume "timeDigits d' = timeDigits d"
  with True show ?thesis by (simp add: dispTime_unchanged)
next
  case False
  obtain a b c e where td: "timeDigits d = (a, b, c, e)" by (cases "timeDigits d") auto
  let ?segs = "(enc a, enc b OR 0x80, enc c, enc e)"
  let ?s1 = "s\<lparr>segWrites := segWrites s @ [?segs], LastTimeDisp := ?segs\<rparr>"
  assume same: "timeDigits d' = timeDigits d"
  have first: "dispTime enc s d = ?s1" using False td by (rule dispTime_writes)
  have "LastTimeDisp ?s1 = ?segs" by simp
  then have ne: "LastTimeDisp ?s1 \<noteq> timeDigits d'" by (rule dispTime_after_write)
  have "dispTime enc ?s1 d' = ?s1\<lparr>segWrites := segWrites ?s1 @ [?segs], LastTimeDisp := ?segs\<rparr>"
    using ne same td by (intro dispTime_writes) simp_all
  with first False show ?thesis by simp
qed

text \<open>
  At the input of the Run entry: right after boot, \<^verbatim>\<open>dispTime(3000000)\<close> called twice
  writes twice.
\<close>

theorem dispTime_repeats_write_example:
  "timeDigits 3000000 = timeDigits 3000000 \<and>
   length (segWrites (dispTime sevenSeg (dispTime sevenSeg (setup_board HIGH) 3000000) 3000000)) = 2"
  using dispTime_repeats_write [of 3000000 3000000 sevenSeg "setup_board HIGH"]
  by (simp add: setup_board_def timeDigits_def int_div_def int_mod_def
      signed_divide_int_def signed_modulo_int_def)

text \<open>
  Claim C5, amended to durations up to 5,999,000 ms. There the digit pattern computed by
  \<^verbatim>\<open>dispTime\<close> shows the minutes \<open>\<lceil>d/1000\<rceil> div 60\<close> and the seconds
  \<open>\<lceil>d/1000\<rceil> mod 60\<close> with two decimal digits each; the call writes exactly when
  \<^verbatim>\<open>LastTimeDisp\<close> differs from this pattern, and what it writes and stores is the
  segment codes of the four digits with the separator bit set on the second.
\<close>

theorem dispTime_countdown:
  assumes "d \<le> 5999000"
  shows "showsMMSS (timeDigits d) (ceilSeconds d div 60) (ceilSeconds d mod 60) \<and>
         dispTime enc s d =
           (if LastTimeDisp s = timeDigits d then s
            else s\<lparr>segWrites := segWrites s @
                      [mmssSegments enc (ceilSeconds d div 60) (ceilSeconds d mod 60)],
                    LastTimeDisp := mmssSegments enc (ceilSeconds d div 60) (ceilSeconds d mod 60)\<rparr>)"
proof -
  from assms have lt: "d < 6000000" by (rule le_less_trans) simp
  from assms have "unat d \<le> 5999000" by (simp add: word_le_nat_alt)
  then have m: "ceilSeconds d div 60 < 100" by (simp add: ceilSeconds_def)
  have td: "timeDigits d = mmssDigits (ceilSeconds d div 60) (ceilSeconds d mod 60)"
    using lt by (rule timeDigits_below)
  have one: "showsMMSS (timeDigits d) (ceilSeconds d div 60) (ceilSeconds d mod 60)"
    using m td by (simp add: showsMMSS_def)
  have two: "LastTimeDisp s \<noteq> timeDigits d \<Longrightarrow>
    dispTime enc s d = s\<lparr>segWrites := segWrites s @
                      [mmssSegments enc (ceilSeconds d div 60) (ceilSeconds d mod 60)],
                    LastTimeDisp := mmssSegments enc (ceilSeconds d div 60) (ceilSeconds d mod 60)\<rparr>"
    unfolding mmssSegments_def by (rule dispTime_writes) (simp_all add: td mmssDigits_def)
  show ?thesis using one two by (simp add: dispTime_unchanged)
qed

text \<open>At 2,999,010 ms, from the state after boot: 50:00 is written.\<close>

theorem dispTime_countdown_example:
  "(2999010 :: u32) \<le> 5999000 \<and>
   showsMMSS (timeDigits 2999010) 50 0 \<and>
   dispTime sevenSeg (setup_board HIGH) 2999010 =
     (setup_board HIGH)\<lparr>segWrites := [(0x6D, 0xBF, 0x3F, 0x3F)], LastTimeDisp := (0x6D, 0xBF, 0x3F, 0x3F)\<rparr>"
  using dispTime_countdown [of 2999010 sevenSeg "setup_board HIGH"]
  by (simp add: ceilSeconds_def mmssSegments_def mmssDigits_def showsMMSS_def sevenSeg_def setup_board_def)

text \<open>
  Claim C5 as stated fails in the last second below the threshold: 5,999,500 ms rounds up
  to 6000 s, that is 100 minutes, and the first digit value is 10.
\<close>

theorem dispTime_countdown_top_second:
  "(5999500 :: u32) < 6000000 \<and> timeDigits 5999500 = (10, 0, 0, 0) \<and>
   \<not> showsMMSS (timeDigits 5999500) (ceilSeconds 5999500 div 60) (ceilSeconds 5999500 mod 60)"
  by (simp add: showsMMSS_def ceilSeconds_def timeDigits_def int_div_def int_mod_def
      signed_divide_int_def signed_modulo_int_def)

text \<open>
  Claim C6: for every duration of 6,000,000 ms or more, which includes the wrapped value
  of a remaining time below zero, the digit pattern is 00:00, and a write, when there is
  one, is the segment codes of 00:00 with the separator.
\<close>

theorem dispTime_expired:
  "6000000 \<le> d \<Longrightarrow>
   timeDigits d = (0, 0, 0, 0) \<and>
   dispTime enc s d =
     (if LastTimeDisp s = (0, 0, 0, 0) then s
      else s\<lparr>segWrites := segWrites s @ [(enc 0, enc 0 OR 0x80, enc 0, enc 0)],
              LastTimeDisp := (enc 0, enc 0 OR 0x80, enc 0, enc 0)\<rparr>)"
  by (simp add: timeDigits_expired dispTime_unchanged dispTime_writes)

text \<open>Ten milliseconds past the deadline, with 00:01 on the display.\<close>

theorem dispTime_expired_example:
  "(6000000 :: u32) \<le> 4294967286 \<and> timeDigits 4294967286 = (0, 0, 0, 0) \<and>
   dispTime sevenSeg ((setup_board HIGH)\<lparr>LastTimeDisp := (0x3F, 0xBF, 0x3F, 0x06)\<rparr>) 4294967286 =
     (setup_board HIGH)\<lparr>segWrites := [(0x3F, 0xBF, 0x3F, 0x3F)], LastTimeDisp := (0x3F, 0xBF, 0x3F, 0x3F)\<rparr>"
  using dispTime_expired [of 4294967286 sevenSeg "(setup_board HIGH)\<lparr>LastTimeDisp := (0x3F, 0xBF, 0x3F, 0x06)\<rparr>"]
  by (simp add: sevenSeg_def setup_board_def)

text \<open>
  Claim C10: \<^verbatim>\<open>LastTimeDisp\<close> starts as four zero bytes; the digit pattern is all zeros
  exactly for the input 0 and for the inputs from 6,000,000 on; and a call with such an
  input while \<^verbatim>\<open>LastTimeDisp\<close> is still all zeros changes nothing: no write is issued.
\<close>

theorem first_dispTime_all_zero:
  "LastTimeDisp (setup_board b) = (0, 0, 0, 0) \<and>
   (timeDigits d = (0, 0, 0, 0) \<longleftrightarrow> d = 0 \<or> 6000000 \<le> d) \<and>
   (LastTimeDisp s = (0, 0, 0, 0) \<and> (d = 0 \<or> 6000000 \<le> d) \<longrightarrow> dispTime enc s d = s)"
  using timeDigits_zero_iff[of d] by (auto simp add: setup_board_def dispTime_unchanged)

text \<open>The first call after boot, with 6,000,000 ms.\<close>

theorem first_dispTime_all_zero_example:
  "LastTimeDisp (setup_board HIGH) = (0, 0, 0, 0) \<and> timeDigits 6000000 = (0, 0, 0, 0) \<and>
   dispTime sevenSeg (setup_board HIGH) 6000000 = setup_board HIGH"
  using first_dispTime_all_zero [of HIGH 6000000 "setup_board HIGH" sevenSeg]
  by simp

section \<open>The control loop: what a pass changes\<close>

lemma dispTime_keeps:
  "steppingOn (dispTime enc s d) = steppingOn s"
  "debugTimeMult (dispTime enc s d) = debugTimeMult s"
  "lastButtonReading (dispTime enc s d) = lastButtonReading s"
  "stopTime (dispTime enc s d) = stopTime s"
  "state (dispTime enc s d) = state s"
  "enablePin (dispTime enc s d) = enablePin s"
  "stepPulses (dispTime enc s d) = stepPulses s"
  by (simp_all add: dispTime_def Let_def split: prod.splits)

lemma newState_not_init: "newState s i \<noteq> ST_INIT"
  by (simp add: newState_def split: drive_state.splits)

lemma loop_state: "state (loop enc s i) = newState s i"
  by (simp add: loop_def Let_def dispTime_keeps)

lemma loop_lastButtonReading: "lastButtonReading (loop enc s i) = (button i \<noteq> LOW)"
  by (simp add: loop_def Let_def dispTime_keeps enterState_def split: drive_state.splits)

lemma loop_debugTimeMult: "debugTimeMult (loop enc s i) = debugTimeMult s"
  by (simp add: loop_def Let_def dispTime_keeps enterState_def split: drive_state.splits)

lemma loop_steppingOn:
  "steppingOn (loop enc s i) =
    (if newState s i \<noteq> state s then newState s i = ST_RUN else steppingOn s)"
  using newState_not_init[of s i]
  by (cases "newState s i") (simp_all add: loop_def Let_def dispTime_keeps enterState_def)

lemma loop_enablePin:
  "enablePin (loop enc s i) =
    (if newState s i \<noteq> state s then (if newState s i = ST_IDLE then HIGH else LOW)
     else enablePin s)"
  using newState_not_init[of s i]
  by (cases "newState s i") (simp_all add: loop_def Let_def dispTime_keeps enterState_def)

lemma loop_stopTime:
  "stopTime (loop enc s i) =
    (if newState s i \<noteq> state s \<and> newState s i = ST_RUN
     then myMillis s (millis_start i) + MAX_DURATION_MSEC else stopTime s)"
  by (cases "newState s i")
     (simp_all add: loop_def Let_def dispTime_keeps enterState_def myMillis_def)

lemma takeStepISR_keeps:
  "steppingOn (takeStepISR s) = steppingOn s"
  "debugTimeMult (takeStepISR s) = debugTimeMult s"
  "lastButtonReading (takeStepISR s) = lastButtonReading s"
  "state (takeStepISR s) = state s"
  "enablePin (takeStepISR s) = enablePin s"
  by (simp_all add: takeStepISR_def)

lemma reachable_init_button: "reachable enc s \<Longrightarrow> state s = ST_INIT \<Longrightarrow> \<not> lastButtonReading s"
proof (induction rule: reachable.induct)
  case (reach_setup b)
  then show ?case by (simp add: setup_board_def)
next
  case (reach_step s e)
  then show ?case
    by (cases e) (simp_all add: loop_state newState_not_init takeStepISR_keeps)
qed

lemma reachable_steppingOn: "reachable enc s \<Longrightarrow> steppingOn s \<longleftrightarrow> state s = ST_RUN"
proof (induction rule: reachable.induct)
  case (reach_setup b)
  show ?case by (simp add: setup_board_def)
next
  case (reach_step s e)
  then show ?case
    by (cases e) (auto simp add: loop_state loop_steppingOn takeStepISR_keeps)
qed

lemma reachable_enablePin:
  "reachable enc s \<Longrightarrow> enablePin s = LOW \<longleftrightarrow> state s = ST_HOLD \<or> state s = ST_RUN"
proof (induction rule: reachable.induct)
  case (reach_setup b)
  show ?case by (simp add: setup_board_def)
next
  case (reach_step s e)
  show ?case
  proof (cases e)
    case (Pass i)
    show ?thesis using reach_step.IH newState_not_init[of s i]
      by (cases "newState s i") (auto simp add: Pass loop_state loop_enablePin)
  next
    case Timer
    then show ?thesis using reach_step.IH by (simp add: takeStepISR_keeps)
  qed
qed

lemma reachable_foldl: "reachable enc s \<Longrightarrow> reachable enc (foldl (step enc) s es)"
  by (induction es arbitrary: s) (simp_all add: reach_step)

lemma step_debugTimeMult: "debugTimeMult (step enc s e) = debugTimeMult s"
  by (cases e) (simp_all add: loop_debugTimeMult takeStepISR_keeps)

lemma foldl_step_debugTimeMult: "debugTimeMult (foldl (step enc) s es) = debugTimeMult s"
  by (induction es arbitrary: s) (simp_all add: step_debugTimeMult)

section \<open>The control loop: transitions and invariants\<close>

text \<open>
  Claim C2: in a reachable state, a pass that sees a press edge moves the state exactly
  one step along Idle, Hold, Run, Idle (a press edge cannot occur in \<open>ST_INIT\<close>, where
  the previous reading is still 0), and the same edge is not seen again: whatever the
  next pass reads, it finds no press edge.
\<close>

theorem press_edge_one_step:
  assumes "reachable enc s" and "buttonWasPressed s i"
  shows "nextInCycle (state s) = Some (state (loop enc s i)) \<and>
         \<not> buttonWasPressed (loop enc s i) i'"
proof -
  from assms(2) have last: "lastButtonReading s" and low: "button i = LOW"
    by (simp_all add: buttonWasPressed_def)
  from assms(1) last have "state s \<noteq> ST_INIT" by (auto dest: reachable_init_button)
  then have "nextInCycle (state s) = Some (newState s i)"
    using assms(2) by (cases "state s") (simp_all add: newState_def)
  moreover have "\<not> buttonWasPressed (loop enc s i) i'"
    using low by (simp add: buttonWasPressed_def loop_lastButtonReading)
  ultimately show ?thesis by (simp add: loop_state)
qed

text \<open>After the first pass the state is Idle; a pass reading the button low moves to Hold.\<close>

theorem press_edge_one_step_example:
  "reachable sevenSeg (step sevenSeg (setup_board HIGH) (Pass (released 10))) \<and>
   buttonWasPressed (step sevenSeg (setup_board HIGH) (Pass (released 10))) (pressed 20) \<and>
   state (step sevenSeg (setup_board HIGH) (Pass (released 10))) = ST_IDLE \<and>
   state (loop sevenSeg (step sevenSeg (setup_board HIGH) (Pass (released 10))) (pressed 20))
     = ST_HOLD"
proof -
  let ?s = "step sevenSeg (setup_board HIGH) (Pass (released 10))"
  let ?i = "pressed 20"
  have r: "reachable sevenSeg ?s" by (rule reach_step) (rule reach_setup)
  have p: "buttonWasPressed ?s ?i"
    by (simp add: buttonWasPressed_def loop_lastButtonReading released_def pressed_def)
  have st: "state ?s = ST_IDLE" by (simp add: loop_state newState_def setup_board_def)
  from press_edge_one_step [OF r p] st have "state (loop sevenSeg ?s ?i) = ST_HOLD"
    by simp
  with r p st show ?thesis by simp
qed

text \<open>
  Claim C3: between passes, \<^verbatim>\<open>steppingOn\<close> is set exactly when the state is Run; and a
  pass that changes the state leaves \<^verbatim>\<open>steppingOn\<close> set exactly when the new state is
  Run.
\<close>

theorem steppingOn_iff_run:
  assumes "reachable enc s"
  shows "(steppingOn s \<longleftrightarrow> state s = ST_RUN) \<and>
         (state (loop enc s i) \<noteq> state s \<longrightarrow>
            (steppingOn (loop enc s i) \<longleftrightarrow> state (loop enc s i) = ST_RUN))"
  using reachable_steppingOn [OF assms] by (simp add: loop_state loop_steppingOn)

text \<open>Boot, a press (Hold), a timer interrupt, a release and a second press: Run, stepping.\<close>

theorem steppingOn_iff_run_example:
  "reachable sevenSeg
     (foldl (step sevenSeg) (setup_board HIGH)
       [Pass (released 10), Pass (pressed 20), Timer, Pass (released 30), Pass (pressed 40)]) \<and>
   state
     (foldl (step sevenSeg) (setup_board HIGH)
       [Pass (released 10), Pass (pressed 20), Timer, Pass (released 30), Pass (pressed 40)]) = ST_RUN \<and>
   steppingOn
     (foldl (step sevenSeg) (setup_board HIGH)
       [Pass (released 10), Pass (pressed 20), Timer, Pass (released 30), Pass (pressed 40)])"
proof -
  let ?s = "foldl (step sevenSeg) (setup_board HIGH)
       [Pass (released 10), Pass (pressed 20), Timer, Pass (released 30), Pass (pressed 40)]"
  have r: "reachable sevenSeg ?s" by (rule reachable_foldl) (rule reach_setup)
  have st: "state ?s = ST_RUN"
    by (simp add: loop_state newState_def buttonWasPressed_def loop_lastButtonReading
        takeStepISR_keeps setup_board_def released_def pressed_def)
  from steppingOn_iff_run [OF r] st have "steppingOn ?s" by simp
  with r st show ?thesis by simp
qed

text \<open>
  Claim C8: between passes, the enable pin is low (motor energized) exactly when the
  state is Hold or Run; after \<^verbatim>\<open>setup\<close> it is high.
\<close>

theorem motor_energized_iff:
  assumes "reachable enc s"
  shows "(motorEnergized s \<longleftrightarrow> state s = ST_HOLD \<or> state s = ST_RUN) \<and>
         \<not> motorEnergized (setup_board b)"
  using reachable_enablePin [OF assms] by (simp add: motorEnergized_def setup_board_def)

text \<open>Boot and a press: Hold, motor energized.\<close>

theorem motor_energized_iff_example:
  "reachable sevenSeg
     (foldl (step sevenSeg) (setup_board HIGH)
       [Pass (released 10), Pass (pressed 20)]) \<and>
   state
     (foldl (step sevenSeg) (setup_board HIGH)
       [Pass (released 10), Pass (pressed 20)]) = ST_HOLD \<and>
   motorEnergized
     (foldl (step sevenSeg) (setup_board HIGH)
       [Pass (released 10), Pass (pressed 20)])"
proof -
  let ?s = "foldl (step sevenSeg) (setup_board HIGH)
       [Pass (released 10), Pass (pressed 20)]"
  have r: "reachable sevenSeg ?s" by (rule reachable_foldl) (rule reach_setup)
  have st: "state ?s = ST_HOLD"
    by (simp add: loop_state newState_def buttonWasPressed_def loop_lastButtonReading
        setup_board_def released_def pressed_def)
  from motor_energized_iff [OF r] st have "motorEnergized ?s" by simp
  with r st show ?thesis by simp
qed

text \<open>
  Claim C9: \<^verbatim>\<open>setup\<close> sets the multiplier to 60 when the button reads low and leaves 1
  otherwise, and no sequence of passes and timer interrupts changes it.
\<close>

theorem debugTimeMult_fixed_at_boot:
  "debugTimeMult (setup_board b) = (if b = LOW then 60 else 1) \<and>
   debugTimeMult (foldl (step enc) (setup_board b) es) = debugTimeMult (setup_board b)"
  by (simp add: foldl_step_debugTimeMult) (simp add: setup_board_def)

section \<open>The time source: scaling and monotonicity\<close>

lemma scast_nonneg:
  assumes "0 \<le> sint (m::i16)"
  shows "(scast m :: u32) = of_nat (nat (sint m))"
  unfolding scast_eq using assms by (rule word_of_int_nat)

lemma myMillis_nat:
  assumes "0 \<le> sint (debugTimeMult s)"
  shows "unat (myMillis s r) = (unat r * nat (sint (debugTimeMult s))) mod 2 ^ 32"
proof -
  have "unat (r * (of_nat (nat (sint (debugTimeMult s))) :: u32)) =
        (unat r * (nat (sint (debugTimeMult s)) mod 2 ^ 32)) mod 2 ^ 32"
    by (simp add: unat_word_ariths unat_of_nat)
  also have "\<dots> = (unat r * nat (sint (debugTimeMult s))) mod 2 ^ 32"
    by (rule mod_mult_right_eq)
  finally show ?thesis by (simp add: myMillis_def scast_nonneg[OF assms])
qed

text \<open>
  Claim C7: for a multiplier that is not negative, \<^verbatim>\<open>myMillis\<close> is the raw clock value
  times the multiplier, modulo \<open>2^32\<close> for every raw value and exactly as long as the
  product stays below \<open>2^32\<close>; there it does not decrease when the raw clock does not.
  The function returns a value and has no access to anything else.
\<close>

theorem myMillis_scaled_monotone:
  assumes "0 \<le> sint (debugTimeMult s)" and "r1 \<le> r2"
    and "unat r2 * nat (sint (debugTimeMult s)) < 2 ^ 32"
  shows "unat (myMillis s r) = (unat r * nat (sint (debugTimeMult s))) mod 2 ^ 32 \<and>
         unat (myMillis s r1) = unat r1 * nat (sint (debugTimeMult s)) \<and>
         unat (myMillis s r2) = unat r2 * nat (sint (debugTimeMult s)) \<and>
         myMillis s r1 \<le> myMillis s r2"
proof -
  let ?m = "nat (sint (debugTimeMult s))"
  from assms(2) have le: "unat r1 \<le> unat r2" by (simp add: word_le_nat_alt)
  then have le': "unat r1 * ?m \<le> unat r2 * ?m" by (rule mult_le_mono1)
  from le' assms(3) have b1: "unat r1 * ?m < 2 ^ 32" by (rule le_less_trans)
  have e1: "unat (myMillis s r1) = unat r1 * ?m"
    using b1 by (simp add: myMillis_nat[OF assms(1)])
  have e2: "unat (myMillis s r2) = unat r2 * ?m"
    using assms(3) by (simp add: myMillis_nat[OF assms(1)])
  have "myMillis s r1 \<le> myMillis s r2" using le' by (simp add: word_le_nat_alt e1 e2)
  with e1 e2 myMillis_nat[OF assms(1), of r] show ?thesis by simp
qed

text \<open>In the 60x mode, at one second and at the last raw value before the wrap.\<close>

theorem myMillis_scaled_monotone_example:
  "0 \<le> sint (debugTimeMult (setup_board LOW)) \<and> (1000 :: u32) \<le> 71582788 \<and>
   unat (71582788 :: u32) * nat (sint (debugTimeMult (setup_board LOW))) < 2 ^ 32 \<and>
   unat (myMillis (setup_board LOW) 1000) = 60000 \<and>
   unat (myMillis (setup_board LOW) 71582788) = 4294967280 \<and>
   myMillis (setup_board LOW) 1000 \<le> myMillis (setup_board LOW) 71582788"
proof -
  have m: "debugTimeMult (setup_board LOW) = 60" by (simp add: setup_board_def)
  have h1: "0 \<le> sint (debugTimeMult (setup_board LOW))" by (simp add: m)
  have h2: "(1000 :: u32) \<le> 71582788" by simp
  have h3: "unat (71582788 :: u32) * nat (sint (debugTimeMult (setup_board LOW))) < 2 ^ 32"
    by (simp add: m)
  from myMillis_scaled_monotone [OF h1 h2 h3, of 0] h1 h2 h3 show ?thesis by (simp add: m)
qed

section \<open>The run deadline\<close>

lemma passes_Nil: "passes enc s [] = s"
  by (simp add: passes_def)

lemma passes_Cons: "passes enc s (i # is) = passes enc (loop enc s i) is"
  by (simp add: passes_def)

lemma passes_debugTimeMult: "debugTimeMult (passes enc s is) = debugTimeMult s"
  by (induction "is" arbitrary: s) (simp_all add: passes_Nil passes_Cons loop_debugTimeMult)

lemma run_entry:
  assumes "state s = ST_HOLD" and "buttonWasPressed s i"
  shows "state (loop enc s i) = ST_RUN"
    and "stopTime (loop enc s i) = myMillis s (millis_start i) + MAX_DURATION_MSEC"
    and "\<not> lastButtonReading (loop enc s i)"
  using assms
  by (simp_all add: loop_state loop_stopTime loop_lastButtonReading newState_def
      buttonWasPressed_def)

lemma quiet_pass_idle:
  assumes "state s = ST_IDLE" and "\<not> buttonWasPressed s i"
  shows "state (loop enc s i) = ST_IDLE"
  using assms by (simp add: loop_state newState_def)

lemma quiet_pass_run:
  assumes "state s = ST_RUN" and "\<not> buttonWasPressed s i"
  shows "state (loop enc s i) =
           (if stopTime s \<le> myMillis s (millis_check i) then ST_IDLE else ST_RUN)"
    and "stopTime (loop enc s i) = stopTime s"
  using assms by (simp_all add: loop_state loop_stopTime newState_def)

lemma idle_stays:
  "state s = ST_IDLE \<Longrightarrow> noPress (lastButtonReading s) is \<Longrightarrow>
   state (passes enc s is) = ST_IDLE"
proof (induction "is" arbitrary: s)
  case Nil
  then show ?case by (simp add: passes_Nil)
next
  case (Cons i "is")
  from Cons.prems(2) have q: "\<not> buttonWasPressed s i" and rest: "noPress (button i \<noteq> LOW) is"
    by (simp_all add: buttonWasPressed_def)
  have "state (loop enc s i) = ST_IDLE" using Cons.prems(1) q by (rule quiet_pass_idle)
  moreover have "noPress (lastButtonReading (loop enc s i)) is"
    using rest by (simp add: loop_lastButtonReading)
  ultimately show ?case by (simp add: passes_Cons Cons.IH)
qed

lemma run_until:
  "state s = ST_RUN \<Longrightarrow> noPress (lastButtonReading s) is \<Longrightarrow>
   state (passes enc s is) =
     (if \<forall>i \<in> set is. myMillis s (millis_check i) < stopTime s then ST_RUN else ST_IDLE)"
proof (induction "is" arbitrary: s)
  case Nil
  then show ?case by (simp add: passes_Nil)
next
  case (Cons i "is")
  let ?s' = "loop enc s i"
  from Cons.prems(2) have q: "\<not> buttonWasPressed s i" and rest: "noPress (button i \<noteq> LOW) is"
    by (simp_all add: buttonWasPressed_def)
  have np: "noPress (lastButtonReading ?s') is"
    using rest by (simp add: loop_lastButtonReading)
  show ?case
  proof (cases "stopTime s \<le> myMillis s (millis_check i)")
    case True
    then have "state ?s' = ST_IDLE" using quiet_pass_run(1)[OF Cons.prems(1) q] by simp
    then have "state (passes enc ?s' is) = ST_IDLE" using np by (rule idle_stays)
    moreover have "\<not> myMillis s (millis_check i) < stopTime s" using True by simp
    ultimately show ?thesis by (simp add: passes_Cons)
  next
    case False
    then have st: "state ?s' = ST_RUN" using quiet_pass_run(1)[OF Cons.prems(1) q] by simp
    have stop: "stopTime ?s' = stopTime s" using Cons.prems(1) q by (rule quiet_pass_run(2))
    have mm: "\<And>r. myMillis ?s' r = myMillis s r"
      by (simp add: myMillis_def loop_debugTimeMult)
    have "myMillis s (millis_check i) < stopTime s" using False by simp
    then show ?thesis using Cons.IH[OF st np] by (simp add: passes_Cons stop mm)
  qed
qed

lemma noPress_take: "noPress p is \<Longrightarrow> noPress p (take k is)"
proof (induction "is" arbitrary: p k)
  case Nil
  then show ?case by simp
next
  case (Cons i "is")
  then show ?case by (cases k) simp_all
qed

lemma paced_nth:
  "paced P t cs \<Longrightarrow> k < length cs \<Longrightarrow> cs ! k \<le> (if k = 0 then t else cs ! (k - 1)) + P"
proof (induction cs arbitrary: t k)
  case Nil
  then show ?case by simp
next
  case (Cons c cs)
  show ?case
  proof (cases k)
    case 0
    with Cons.prems show ?thesis by simp
  next
    case (Suc j)
    from Cons.prems have "paced P c cs" and "j < length cs" by (simp_all add: Suc)
    then have "cs ! j \<le> (if j = 0 then c else cs ! (j - 1)) + P" by (rule Cons.IH)
    then show ?thesis by (cases j) (simp_all add: Suc)
  qed
qed

lemma leavesRunAt_reading:
  assumes run: "state s = ST_RUN" and quiet: "noPress (lastButtonReading s) is"
    and leaves: "leavesRunAt enc s is k"
  shows "stopTime s \<le> myMillis s (millis_check (is ! k))"
    and "\<forall>j<k. myMillis s (millis_check (is ! j)) < stopTime s"
proof -
  from leaves have k: "k < length is"
    and a: "state (passes enc s (take k is)) = ST_RUN"
    and b: "state (passes enc s (take (Suc k) is)) = ST_IDLE"
    by (simp_all add: leavesRunAt_def)
  have before: "\<forall>i \<in> set (take k is). myMillis s (millis_check i) < stopTime s"
    using a run_until[OF run noPress_take[OF quiet], of enc k]
    by (simp split: if_splits)
  have "\<not> (\<forall>i \<in> set (take (Suc k) is). myMillis s (millis_check i) < stopTime s)"
    using b run_until[OF run noPress_take[OF quiet], of enc "Suc k"]
    by (simp split: if_splits)
  with before k have "\<not> myMillis s (millis_check (is ! k)) < stopTime s"
    by (simp add: take_Suc_conv_app_nth)
  then show "stopTime s \<le> myMillis s (millis_check (is ! k))" by simp
  show "\<forall>j<k. myMillis s (millis_check (is ! j)) < stopTime s"
  proof (intro allI impI)
    fix j assume j: "j < k"
    with k have "is ! j \<in> set (take k is)"
      by (auto simp add: in_set_conv_nth intro!: exI[of _ j])
    with before show "myMillis s (millis_check (is ! j)) < stopTime s" by blast
  qed
qed

lemma leavesRunAt_first:
  assumes run: "state s = ST_RUN" and quiet: "noPress (lastButtonReading s) is"
    and k: "k < length is"
    and reached: "stopTime s \<le> myMillis s (millis_check (is ! k))"
    and before: "\<forall>j<k. myMillis s (millis_check (is ! j)) < stopTime s"
  shows "leavesRunAt enc s is k"
proof -
  have all: "\<forall>i \<in> set (take k is). myMillis s (millis_check i) < stopTime s"
  proof
    fix i assume "i \<in> set (take k is)"
    then obtain j where "j < k" and "i = is ! j"
      using k by (auto simp add: in_set_conv_nth)
    with before show "myMillis s (millis_check i) < stopTime s" by simp
  qed
  then have a: "state (passes enc s (take k is)) = ST_RUN"
    using run_until[OF run noPress_take[OF quiet], of enc k] by simp
  have "\<not> myMillis s (millis_check (is ! k)) < stopTime s" using reached by simp
  then have "\<not> (\<forall>i \<in> set (take (Suc k) is). myMillis s (millis_check i) < stopTime s)"
    using k by (simp add: take_Suc_conv_app_nth)
  then have b: "state (passes enc s (take (Suc k) is)) = ST_IDLE"
    using run_until[OF run noPress_take[OF quiet], of enc "Suc k"] by simp
  from k a b show ?thesis by (simp add: leavesRunAt_def)
qed

text \<open>
  Claim C4, amended with the condition that the deadline does not wrap: \<open>t0 + 3,000,000\<close>
  is below \<open>2^32\<close>. A pass in Hold that sees a press edge enters Run and arms
  \<^verbatim>\<open>stopTime\<close> with the logical time \<open>t0\<close> it reads plus 3,000,000. Let the following
  passes \<open>is\<close> see no press edge, and let the logical time read at the exit test of each
  never go back and advance by at most \<open>P\<close> from one pass to the next (from \<open>t0\<close> for
  the first). Then a pass that takes the machine from Run to Idle reads a logical time
  of at least \<open>t0 + 3,000,000\<close> and less than \<open>t0 + 3,000,000 + P\<close>; and there is such
  a pass as soon as some pass reads a time of \<open>t0 + 3,000,000\<close> or more.
\<close>

theorem run_ends_at_deadline:
  assumes hold: "state s = ST_HOLD" and press: "buttonWasPressed s i0"
    and t0: "t0 = unat (myMillis s (millis_start i0))"
    and horizon: "t0 + 3000000 < 2 ^ 32"
    and quiet: "noPress False is"
    and clock: "paced P t0 (map (\<lambda>i. unat (myMillis s (millis_check i))) is)"
  shows "state (loop enc s i0) = ST_RUN \<and>
         stopTime (loop enc s i0) = myMillis s (millis_start i0) + 3000000 \<and>
         (\<forall>k. leavesRunAt enc (loop enc s i0) is k \<longrightarrow>
            t0 + 3000000 \<le> unat (myMillis s (millis_check (is ! k))) \<and>
            unat (myMillis s (millis_check (is ! k))) < t0 + 3000000 + P) \<and>
         ((\<exists>k<length is. t0 + 3000000 \<le> unat (myMillis s (millis_check (is ! k)))) \<longrightarrow>
            (\<exists>k. leavesRunAt enc (loop enc s i0) is k))"
proof -
  let ?s1 = "loop enc s i0"
  let ?c = "\<lambda>k. myMillis s (millis_check (is ! k))"
  have run: "state ?s1 = ST_RUN" using hold press by (rule run_entry(1))
  have stop: "stopTime ?s1 = myMillis s (millis_start i0) + 3000000"
    using run_entry(2)[OF hold press, of enc] by (simp add: MAX_DURATION_MSEC_def)
  have last: "\<not> lastButtonReading ?s1" using hold press by (rule run_entry(3))
  with quiet have quiet1: "noPress (lastButtonReading ?s1) is" by simp
  have mm: "\<And>r. myMillis ?s1 r = myMillis s r"
    by (simp add: myMillis_def loop_debugTimeMult)
  have "unat (myMillis s (millis_start i0)) + unat (3000000 :: u32) < 2 ^ LENGTH(32)"
    using horizon t0 by simp
  then have "unat (myMillis s (millis_start i0) + 3000000) =
             unat (myMillis s (millis_start i0)) + unat (3000000 :: u32)"
    by (simp only: unat_add_lem)
  then have dl: "unat (stopTime ?s1) = t0 + 3000000" by (simp add: stop t0)
  have bounds: "t0 + 3000000 \<le> unat (?c k) \<and> unat (?c k) < t0 + 3000000 + P"
    if leaves: "leavesRunAt enc ?s1 is k" for k
  proof -
    from leaves have k: "k < length is" by (simp add: leavesRunAt_def)
    have "stopTime ?s1 \<le> ?c k"
      using leavesRunAt_reading(1)[OF run quiet1 leaves] by (simp add: mm)
    then have lower: "t0 + 3000000 \<le> unat (?c k)" by (simp add: word_le_nat_alt dl)
    have before: "\<forall>j<k. ?c j < stopTime ?s1"
      using leavesRunAt_reading(2)[OF run quiet1 leaves] by (simp add: mm)
    have upper: "unat (?c k) < t0 + 3000000 + P"
    proof (cases k)
      case 0
      with paced_nth[OF clock, of k] k show ?thesis by simp
    next
      case (Suc j)
      with k have j: "j < length is" by simp
      from Suc before have "?c j < stopTime ?s1" by simp
      then have "unat (?c j) < t0 + 3000000" by (simp add: word_less_nat_alt dl)
      moreover have "unat (?c k) \<le> unat (?c j) + P"
        using paced_nth[OF clock, of k] k j by (simp add: Suc)
      ultimately show ?thesis by simp
    qed
    from lower upper show ?thesis by simp
  qed
  have live: "\<exists>k. leavesRunAt enc ?s1 is k"
    if ex: "\<exists>k<length is. t0 + 3000000 \<le> unat (?c k)"
  proof -
    let ?Q = "\<lambda>k. k < length is \<and> t0 + 3000000 \<le> unat (?c k)"
    from ex have "\<exists>k. ?Q k" by blast
    then obtain k where qk: "?Q k" and least: "\<forall>j<k. \<not> ?Q j"
      using exists_least_iff[of ?Q] by blast
    from qk have k: "k < length is" and reached: "stopTime ?s1 \<le> myMillis ?s1 (millis_check (is ! k))"
      by (simp_all add: word_le_nat_alt dl mm)
    have "\<forall>j<k. myMillis ?s1 (millis_check (is ! j)) < stopTime ?s1"
    proof (intro allI impI)
      fix j assume j: "j < k"
      with k have "j < length is" by simp
      with least j have "\<not> t0 + 3000000 \<le> unat (?c j)" by blast
      then show "myMillis ?s1 (millis_check (is ! j)) < stopTime ?s1"
        by (simp add: word_less_nat_alt dl mm)
    qed
    with run quiet1 k reached have "leavesRunAt enc ?s1 is k" by (rule leavesRunAt_first)
    then show ?thesis ..
  qed
  from run stop bounds live show ?thesis by blast
qed

lemmas eval_simps = passes_def loop_state loop_stopTime loop_lastButtonReading loop_debugTimeMult
  newState_def buttonWasPressed_def myMillis_def setup_board_def released_def pressed_def
  MAX_DURATION_MSEC_def

text \<open>
  Run entered at 40 ms; the passes at 2,000,000 ms and 3,000,050 ms see no press edge,
  and the second one leaves Run.
\<close>

theorem run_ends_at_deadline_example:
  "state (passes sevenSeg (setup_board HIGH) [released 10, pressed 20, released 30]) = ST_HOLD \<and>
   buttonWasPressed (passes sevenSeg (setup_board HIGH) [released 10, pressed 20, released 30])
     (pressed 40) \<and>
   noPress False [released 2000000, released 3000050] \<and>
   paced 2000000 40
     (map (\<lambda>i. unat (myMillis
         (passes sevenSeg (setup_board HIGH) [released 10, pressed 20, released 30])
         (millis_check i)))
       [released 2000000, released 3000050]) \<and>
   stopTime (loop sevenSeg
       (passes sevenSeg (setup_board HIGH) [released 10, pressed 20, released 30])
       (pressed 40)) = 3000040 \<and>
   (\<exists>k. leavesRunAt sevenSeg
       (loop sevenSeg
         (passes sevenSeg (setup_board HIGH) [released 10, pressed 20, released 30])
         (pressed 40))
       [released 2000000, released 3000050] k)"
proof -
  let ?s = "passes sevenSeg (setup_board HIGH) [released 10, pressed 20, released 30]"
  let ?is = "[released 2000000, released 3000050]"
  have h1: "state ?s = ST_HOLD" by (simp add: eval_simps)
  have h2: "buttonWasPressed ?s (pressed 40)" by (simp add: eval_simps)
  have h3: "(40::nat) = unat (myMillis ?s (millis_start (pressed 40)))" by (simp add: eval_simps)
  have h4: "(40::nat) + 3000000 < 2 ^ 32" by simp
  have h5: "noPress False ?is" by (simp add: released_def)
  have h6: "paced 2000000 40 (map (\<lambda>i. unat (myMillis ?s (millis_check i))) ?is)"
    by (simp add: eval_simps)
  have reach: "\<exists>k<length ?is. (40::nat) + 3000000 \<le> unat (myMillis ?s (millis_check (?is ! k)))"
    by (rule exI[of _ 1]) (simp add: eval_simps)
  from run_ends_at_deadline [OF h1 h2 h3 h4 h5 h6, of sevenSeg] reach
  have "stopTime (loop sevenSeg ?s (pressed 40)) = myMillis ?s (millis_start (pressed 40)) + 3000000"
    and "\<exists>k. leavesRunAt sevenSeg (loop sevenSeg ?s (pressed 40)) ?is k"
    by blast+
  moreover have "myMillis ?s (millis_start (pressed 40)) + 3000000 = 3000040"
    by (simp add: eval_simps)
  ultimately show ?thesis using h1 h2 h5 h6 by simp
qed

text \<open>
  Claim C4 as stated fails where the deadline wraps. In the 60x mode (booted with the
  button held), Run is entered at the raw time 71,570,000 ms (19.9 hours), which is the
  logical time 4,294,200,000; \<^verbatim>\<open>stopTime\<close> wraps to 2,232,704. The next pass, 10 ms
  later and with the button released, reads the logical time 4,294,200,600, finds it
  at or above \<^verbatim>\<open>stopTime\<close> and goes to Idle: 600 ms of logical time after the entry,
  not 3,000,000.
\<close>

theorem run_cut_short_by_wraparound:
  "state (passes sevenSeg (setup_board LOW)
       [pressed 10, released 20, pressed 30, released 40]) = ST_HOLD \<and>
   buttonWasPressed (passes sevenSeg (setup_board LOW)
       [pressed 10, released 20, pressed 30, released 40]) (pressed 71570000) \<and>
   noPress False [released 71570010] \<and>
   unat (myMillis (passes sevenSeg (setup_board LOW)
       [pressed 10, released 20, pressed 30, released 40])
     (millis_start (pressed 71570000))) = 4294200000 \<and>
   unat (myMillis (passes sevenSeg (setup_board LOW)
       [pressed 10, released 20, pressed 30, released 40])
     (millis_check (released 71570010))) = 4294200600 \<and>
   paced 600 4294200000 [4294200600] \<and>
   stopTime (loop sevenSeg
       (passes sevenSeg (setup_board LOW) [pressed 10, released 20, pressed 30, released 40])
       (pressed 71570000)) = 2232704 \<and>
   leavesRunAt sevenSeg
       (loop sevenSeg
         (passes sevenSeg (setup_board LOW) [pressed 10, released 20, pressed 30, released 40])
         (pressed 71570000))
       [released 71570010] 0 \<and>
   \<not> (unat (myMillis (passes sevenSeg (setup_board LOW)
           [pressed 10, released 20, pressed 30, released 40])
         (millis_start (pressed 71570000))) + 3000000
      \<le> unat (myMillis (passes sevenSeg (setup_board LOW)
           [pressed 10, released 20, pressed 30, released 40])
         (millis_check ([released 71570010] ! 0))))"
  by (simp add: eval_simps leavesRunAt_def)

end
